theory Spec2Isabelle
  imports Complex_Main
begin

section \<open>The game-tree search of minimax.py\<close>

text \<open>
  The searches of \<^verbatim>\<open>minimax.py\<close> work on a \<^verbatim>\<open>chess.Board\<close> of the python-chess
  library, which is no part of the repository. The board is therefore a parameter of the
  model: a record of the operations the source calls on it. The board is mutated in place
  by \<^verbatim>\<open>push\<close> and \<^verbatim>\<open>pop\<close>; the model passes it explicitly and every search returns
  the board it leaves behind together with its score.

  Scores are Python floats (and the integer \<^verbatim>\<open>0\<close> of a draw); the model computes with
  exact reals, so rounding is not modelled. Depths are Python integers, hence \<open>int\<close>.
\<close>

subsection \<open>The board operations used by the source\<close>

datatype py_error = ZeroDivisionError | RecursionError | AttributeError

record ('b, 'm) adapter =
  legal_moves :: "'b \<Rightarrow> 'm list"
  push :: "'b \<Rightarrow> 'm \<Rightarrow> 'b"
  push_none :: "'b \<Rightarrow> py_error + 'b"
  pop :: "'b \<Rightarrow> 'b"
  turn :: "'b \<Rightarrow> bool"
  is_game_over :: "'b \<Rightarrow> bool"
  is_checkmate :: "'b \<Rightarrow> bool"
  reset :: "'b \<Rightarrow> 'b"

text \<open>
  \<open>legal_moves\<close> is \<^verbatim>\<open>board.legal_moves\<close> in enumeration order, \<open>turn\<close> is
  \<^verbatim>\<open>board.turn\<close> (\<open>True\<close> for White, the maximizing side). \<open>push_none\<close> is what
  \<^verbatim>\<open>board.push(None)\<close> does: Python lets the driver hand \<^verbatim>\<open>None\<close> to \<^verbatim>\<open>push\<close>, and
  the outcome is the library's (python-chess raises on it).
\<close>

type_synonym 'b evaluator = "'b \<Rightarrow> real"

type_synonym 'b search_result = "py_error + 'b \<times> real"

definition max_score :: real where
  "max_score = 10000"

subsection \<open>The loop over the legal moves\<close>

text \<open>
  The four loops of the two searches have one shape:
  \<^verbatim>\<open>
  for move in board.legal_moves:
      board.push(move)
      best_score = max(best_score, <recursive search>(board, ..., board.turn, evaluator))
      board.pop()
  return best_score
  \<close>
  with \<^verbatim>\<open>min\<close> in place of \<^verbatim>\<open>max\<close> for Black. \<open>search\<close> is the recursive call, applied
  to the board after the push; \<open>comb\<close> is \<^verbatim>\<open>max\<close> or \<^verbatim>\<open>min\<close>. An exception raised
  by the recursive call leaves the loop at once. The moves are those of the board at the
  entry of the loop; each pass continues on the board its pop leaves.
\<close>

primrec search_loop ::
  "('b, 'm) adapter \<Rightarrow> ('b \<Rightarrow> 'b search_result) \<Rightarrow> (real \<Rightarrow> real \<Rightarrow> real) \<Rightarrow>
   'm list \<Rightarrow> 'b \<Rightarrow> real \<Rightarrow> 'b search_result" where
  "search_loop A search comb [] board best_score = Inr (board, best_score)"
| "search_loop A search comb (move # moves) board best_score =
     (case search (push A board move) of
        Inl e \<Rightarrow> Inl e
      | Inr (board', score) \<Rightarrow>
          search_loop A search comb moves (pop A board') (comb best_score score))"

subsection \<open>Depth-limited minimax\<close>

text \<open>
  The first argument bounds the nesting of recursive calls: Python raises
  \<^verbatim>\<open>RecursionError\<close> when its recursion limit is reached, and a search that runs out of
  this fuel has not returned a score. The source compares \<^verbatim>\<open>depth == max_depth\<close>, so a
  call with \<^verbatim>\<open>depth > max_depth\<close> recurses until the game is over or the limit is hit.
\<close>

fun minimax ::
  "nat \<Rightarrow> ('b, 'm) adapter \<Rightarrow> 'b \<Rightarrow> int \<Rightarrow> int \<Rightarrow> bool \<Rightarrow> 'b evaluator \<Rightarrow> 'b search_result" where
  "minimax 0 A board depth max_depth color evaluator = Inl RecursionError"
| "minimax (Suc fuel) A board depth max_depth color evaluator =
     (if is_game_over A board then
        (if is_checkmate A board then
           (if color then Inr (board, - (max_score + real_of_int depth) / max_score)
            else Inr (board, (max_score - real_of_int depth) / max_score))
         else Inr (board, 0))
      else if depth = max_depth then Inr (board, evaluator board)
      else if color then
        search_loop A (\<lambda>b. minimax fuel A b (depth + 1) max_depth (turn A b) evaluator)
          max (legal_moves A board) board (- max_score)
      else
        search_loop A (\<lambda>b. minimax fuel A b (depth + 1) max_depth (turn A b) evaluator)
          min (legal_moves A board) board max_score)"

subsection \<open>Probability-limited minimax\<close>

text \<open>
  \<^verbatim>\<open>proba_depth/num_moves\<close> is Python's true division, which raises
  \<^verbatim>\<open>ZeroDivisionError\<close> on a zero divisor. \<^verbatim>\<open>num_moves\<close> is computed before the loop;
  the quotient is computed inside it, once per move, after the push.
\<close>

definition py_div :: "real \<Rightarrow> nat \<Rightarrow> py_error + real" where
  "py_div x n = (if n = 0 then Inl ZeroDivisionError else Inr (x / real n))"

fun probabilistic_minimax ::
  "nat \<Rightarrow> ('b, 'm) adapter \<Rightarrow> 'b \<Rightarrow> real \<Rightarrow> real \<Rightarrow> bool \<Rightarrow> 'b evaluator \<Rightarrow> 'b search_result" where
  "probabilistic_minimax 0 A board proba_depth min_proba_depth color evaluator =
     Inl RecursionError"
| "probabilistic_minimax (Suc fuel) A board proba_depth min_proba_depth color evaluator =
     (if is_game_over A board then
        (if is_checkmate A board then
           (if color then Inr (board, - max_score / max_score)
            else Inr (board, max_score / max_score))
         else Inr (board, 0))
      else if proba_depth < min_proba_depth then Inr (board, evaluator board)
      else if color then
        (let num_moves = length (legal_moves A board) in
         search_loop A
           (\<lambda>b. case py_div proba_depth num_moves of
                   Inl e \<Rightarrow> Inl e
                 | Inr p \<Rightarrow> probabilistic_minimax fuel A b p min_proba_depth (turn A b) evaluator)
           max (legal_moves A board) board (- max_score))
      else
        (let num_moves = length (legal_moves A board) in
         search_loop A
           (\<lambda>b. case py_div proba_depth num_moves of
                   Inl e \<Rightarrow> Inl e
                 | Inr p \<Rightarrow> probabilistic_minimax fuel A b p min_proba_depth (turn A b) evaluator)
           min (legal_moves A board) board max_score))"

subsection \<open>The best-move selector\<close>

text \<open>
  The loop of \<^verbatim>\<open>find_best_move\<close>: the score of a move is the depth-limited search of
  the position after it, from depth 0, for the side then to move. \<^verbatim>\<open>board.turn\<close> is
  read again after the pop to choose the comparison.
\<close>

primrec best_move_loop ::
  "nat \<Rightarrow> ('b, 'm) adapter \<Rightarrow> int \<Rightarrow> 'b evaluator \<Rightarrow> 'm list \<Rightarrow> 'b \<Rightarrow> 'm option \<Rightarrow> real \<Rightarrow>
   py_error + 'b \<times> 'm option \<times> real" where
  "best_move_loop fuel A max_depth evaluator [] board best_move best_score =
     Inr (board, best_move, best_score)"
| "best_move_loop fuel A max_depth evaluator (move # moves) board best_move best_score =
     (case minimax fuel A (push A board move) 0 max_depth (turn A (push A board move)) evaluator of
        Inl e \<Rightarrow> Inl e
      | Inr (board', score) \<Rightarrow>
          (let board'' = pop A board' in
           if turn A board'' then
             (if score > best_score
              then best_move_loop fuel A max_depth evaluator moves board'' (Some move) score
              else best_move_loop fuel A max_depth evaluator moves board'' best_move best_score)
           else
             (if score < best_score
              then best_move_loop fuel A max_depth evaluator moves board'' (Some move) score
              else best_move_loop fuel A max_depth evaluator moves board'' best_move best_score)))"

text \<open>
  The selector ends by wrapping a score that is no tensor into one
  (\<^verbatim>\<open>torch.squeeze(torch.Tensor([best_score]))\<close>); on exact reals this is the identity.
\<close>

definition find_best_move ::
  "nat \<Rightarrow> ('b, 'm) adapter \<Rightarrow> 'b \<Rightarrow> int \<Rightarrow> 'b evaluator \<Rightarrow> py_error + 'b \<times> 'm option \<times> real" where
  "find_best_move fuel A board max_depth evaluator =
     (let best_move = None;
          best_score = (if turn A board then - max_score else max_score)
      in if length (legal_moves A board) > 0
         then best_move_loop fuel A max_depth evaluator (legal_moves A board) board
                best_move best_score
         else Inr (board, best_move, best_score / max_score))"

subsection \<open>The self-play driver\<close>

text \<open>
  \<^verbatim>\<open>board.push(move)\<close> in the driver, where \<^verbatim>\<open>move\<close> is what the selector returned
  and may be \<^verbatim>\<open>None\<close>: the driver does not look at it before the call.
\<close>

definition board_push :: "('b, 'm) adapter \<Rightarrow> 'b \<Rightarrow> 'm option \<Rightarrow> py_error + 'b" where
  "board_push A board move =
     (case move of None \<Rightarrow> push_none A board | Some m \<Rightarrow> Inr (push A board m))"

text \<open>
  One pass through the body of \<^verbatim>\<open>while not board.is_game_over()\<close>: the selector is
  called with depth 1 and the evaluator of the side to move, and its move is pushed.
\<close>

definition driver_turn ::
  "nat \<Rightarrow> ('b, 'm) adapter \<Rightarrow> 'b evaluator \<Rightarrow> 'b evaluator \<Rightarrow> 'b \<Rightarrow> py_error + 'b" where
  "driver_turn fuel A white_evaluator black_evaluator board =
     (if turn A board then
        (case find_best_move fuel A board 1 white_evaluator of
           Inl e \<Rightarrow> Inl e
         | Inr (board', move, score) \<Rightarrow> board_push A board' move)
      else
        (case find_best_move fuel A board 1 black_evaluator of
           Inl e \<Rightarrow> Inl e
         | Inr (board', move, score) \<Rightarrow> board_push A board' move))"

text \<open>
  The \<^verbatim>\<open>while\<close> loop of one game. It may run forever, so it carries its own count of
  iterations: \<open>None\<close> means the loop has not ended within them. The loop condition is
  tested before anything else, as in the source.
\<close>

fun play_game ::
  "nat \<Rightarrow> nat \<Rightarrow> ('b, 'm) adapter \<Rightarrow> 'b evaluator \<Rightarrow> 'b evaluator \<Rightarrow> 'b \<Rightarrow> (py_error + 'b) option" where
  "play_game 0 fuel A white_evaluator black_evaluator board =
     (if \<not> is_game_over A board then None else Some (Inr board))"
| "play_game (Suc steps) fuel A white_evaluator black_evaluator board =
     (if \<not> is_game_over A board then
        (case driver_turn fuel A white_evaluator black_evaluator board of
           Inl e \<Rightarrow> Some (Inl e)
         | Inr board' \<Rightarrow> play_game steps fuel A white_evaluator black_evaluator board')
      else Some (Inr board))"

record score_board =
  White :: real
  Black :: real

text \<open>The classification of a finished game, the tally and the reset of the board.\<close>

definition classify :: "('b, 'm) adapter \<Rightarrow> 'b \<Rightarrow> score_board \<Rightarrow> 'b \<times> score_board" where
  "classify A board tally =
     (if is_game_over A board then
        (if is_checkmate A board then
           (if turn A board then (reset A board, tally\<lparr>Black := Black tally + 1\<rparr>)
            else (reset A board, tally\<lparr>White := White tally + 1\<rparr>))
         else (reset A board, tally\<lparr>White := White tally + 0.5, Black := Black tally + 0.5\<rparr>))
      else (board, tally))"

subsection \<open>Properties of the board operations\<close>

text \<open>A pop undoes the push of a legal move.\<close>

definition round_trip :: "('b, 'm) adapter \<Rightarrow> bool" where
  "round_trip A = (\<forall>b m. m \<in> set (legal_moves A b) \<longrightarrow> pop A (push A b m) = b)"

text \<open>
  The positions within \<open>k\<close> plies below a board: at each of them a pop undoes the push of
  a legal move, and a position that is not game over has a legal move.
\<close>

fun subtree_ok :: "nat \<Rightarrow> ('b, 'm) adapter \<Rightarrow> 'b \<Rightarrow> bool" where
  "subtree_ok 0 A board = True"
| "subtree_ok (Suc k) A board =
     (is_game_over A board \<or>
      (legal_moves A board \<noteq> [] \<and>
       list_all (\<lambda>m. pop A (push A board m) = board \<and> subtree_ok k A (push A board m))
         (legal_moves A board)))"

subsection \<open>A scripted game for concrete runs\<close>

text \<open>
  A position of the scripted game is a node of a finite tree that says what the board
  reports at it; a move is the position it leads to, and the board is the stack of the
  positions played, the current one on top.
\<close>

datatype status = Ongoing | Mated | Drawn

datatype position =
  Position (status: status) (white_to_move: bool) (worth: int) (successors: "position list")

definition scripted :: "(position list, position) adapter" where
  "scripted =
     \<lparr>legal_moves = (\<lambda>b. case b of [] \<Rightarrow> [] | p # _ \<Rightarrow> successors p),
      push = (\<lambda>b m. m # b),
      push_none = (\<lambda>b. Inl AttributeError),
      pop = tl,
      turn = (\<lambda>b. case b of [] \<Rightarrow> True | p # _ \<Rightarrow> white_to_move p),
      is_game_over = (\<lambda>b. case b of [] \<Rightarrow> False | p # _ \<Rightarrow> status p \<noteq> Ongoing),
      is_checkmate = (\<lambda>b. case b of [] \<Rightarrow> False | p # _ \<Rightarrow> status p = Mated),
      reset = (\<lambda>b. case b of [] \<Rightarrow> [] | p # _ \<Rightarrow> [last b])\<rparr>"

definition worth_evaluator :: "position list evaluator" where
  "worth_evaluator b = (case b of [] \<Rightarrow> 0 | p # _ \<Rightarrow> real_of_int (worth p))"

definition white_mated :: position where
  "white_mated = Position Mated True 0 []"

definition black_mated :: position where
  "black_mated = Position Mated False 0 []"

definition drawn :: position where
  "drawn = Position Drawn True 5 []"

definition stuck_white :: position where
  "stuck_white = Position Ongoing True 0 []"

definition stuck_black :: position where
  "stuck_black = Position Ongoing False 0 []"

definition quiet :: "bool \<Rightarrow> int \<Rightarrow> position" where
  "quiet w v = Position Ongoing w v [Position Ongoing (\<not> w) v []]"

definition bounded_evaluator :: "position list evaluator" where
  "bounded_evaluator b =
     (case b of [] \<Rightarrow> 0 | p # _ \<Rightarrow> real_of_int (max (- 22) (min 22 (worth p))) / 22)"

definition mate_in_one :: position where
  "mate_in_one = Position Ongoing True 0 [black_mated]"

text \<open>
  A position with White to move and four moves: three replies of Black that lead to quiet
  positions worth 1, 3 and 3, and a move that mates Black.
\<close>

definition reply :: "int \<Rightarrow> int \<Rightarrow> position" where
  "reply tag v = Position Ongoing False tag [Position Ongoing True v []]"

definition start_pos :: position where
  "start_pos = Position Ongoing True 0 [reply 7 1, reply 8 3, reply 9 3, black_mated]"

text \<open>The scores of the moves of \<open>start_pos\<close>: two plies deep, and by budget.\<close>

definition reply_score :: "position \<Rightarrow> real" where
  "reply_score m = (case successors m of [] \<Rightarrow> 1 | p # _ \<Rightarrow> real_of_int (worth p))"

definition budget_score :: "position \<Rightarrow> real" where
  "budget_score m = (if status m = Mated then 1 else real_of_int (worth m))"

text \<open>Positions whose only move leads to a position rated at or below the sentinel.\<close>

definition sunk_reply :: position where
  "sunk_reply = Position Ongoing False (- 10000) []"

definition sunk :: position where
  "sunk = Position Ongoing True 0 [sunk_reply]"

definition drowned :: position where
  "drowned = Position Ongoing True 0 [Position Ongoing False (- 20000) []]"

text \<open>
  A position with a legal move at every stage until the game is over, whose only line
  reaches, after one reply, a position that the evaluator rates at the sentinel.
\<close>

definition starved_leaf :: position where
  "starved_leaf = Position Ongoing True (- 10000) [Position Drawn False 0 []]"

definition starved_reply :: position where
  "starved_reply = Position Ongoing False 0 [starved_leaf]"

definition starved :: position where
  "starved = Position Ongoing True 0 [starved_reply]"

lemmas scripted_simps =
  scripted_def worth_evaluator_def max_score_def py_div_def

lemma round_trip_scripted: "round_trip scripted"
  by (simp add: round_trip_def scripted_def)

section \<open>Terminal positions\<close>

text \<open>
  C1. At a position reported game over by checkmate, the depth-limited search returns
  \<open>-(10000 + depth)/10000\<close> when the side to move is the maximizing side and
  \<open>(10000 - depth)/10000\<close> otherwise, whatever the depth, the limit and the evaluator.
\<close>

theorem minimax_checkmate_score:
  assumes "is_game_over A board" and "is_checkmate A board"
  shows "minimax (Suc fuel) A board depth max_depth color evaluator =
           Inr (board, if color then - (10000 + real_of_int depth) / 10000
                       else (10000 - real_of_int depth) / 10000)"
  using assms by (simp add: max_score_def)

theorem minimax_checkmate_score_witness:
  "is_game_over scripted [white_mated] \<and> is_checkmate scripted [white_mated] \<and>
   minimax (Suc 0) scripted [white_mated] 3 5 True worth_evaluator =
     Inr ([white_mated], - 10003 / 10000) \<and>
   minimax (Suc 0) scripted [black_mated] 3 5 False worth_evaluator =
     Inr ([black_mated], 9997 / 10000)"
proof -
  have w1: "is_game_over scripted [white_mated]" and w2: "is_checkmate scripted [white_mated]"
    by (simp_all add: scripted_def white_mated_def)
  have b1: "is_game_over scripted [black_mated]" and b2: "is_checkmate scripted [black_mated]"
    by (simp_all add: scripted_def black_mated_def)
  show ?thesis
    using w1 w2 minimax_checkmate_score [OF w1 w2, where fuel = 0 and depth = 3 and max_depth = 5
        and color = True and evaluator = worth_evaluator]
      minimax_checkmate_score [OF b1 b2, where fuel = 0 and depth = 3 and max_depth = 5
        and color = False and evaluator = worth_evaluator]
    by simp
qed

text \<open>
  C9. At a position reported game over that is no checkmate, both searches return
  exactly 0, whatever the depth, the budget, the side and the evaluator.
\<close>

theorem draw_scores_zero:
  assumes "is_game_over A board" and "\<not> is_checkmate A board"
  shows "minimax (Suc fuel) A board depth max_depth color evaluator = Inr (board, 0) \<and>
         probabilistic_minimax (Suc fuel) A board proba_depth min_proba_depth color evaluator =
           Inr (board, 0)"
  using assms by simp

theorem draw_scores_zero_witness:
  "is_game_over scripted [drawn] \<and> \<not> is_checkmate scripted [drawn] \<and>
   minimax (Suc 0) scripted [drawn] 1 4 True worth_evaluator = Inr ([drawn], 0) \<and>
   probabilistic_minimax (Suc 0) scripted [drawn] 1 (1 / 8) False worth_evaluator =
     Inr ([drawn], 0)"
proof -
  have g: "is_game_over scripted [drawn]" and c: "\<not> is_checkmate scripted [drawn]"
    by (simp_all add: scripted_def drawn_def)
  show ?thesis
    using g c draw_scores_zero [OF g c, where fuel = 0 and depth = 1 and max_depth = 4
        and color = True and evaluator = worth_evaluator]
    by simp
qed

section \<open>The frontier\<close>

text \<open>
  C2 (as stated). A search whose depth equals its limit returns the evaluator's value
  at every state. It fails at a game-over state: the terminal test comes first, and the
  drawn position, which the evaluator rates 5, scores 0.
\<close>

theorem minimax_at_limit_counterexample:
  "minimax (Suc 0) scripted [drawn] 2 2 True worth_evaluator
     \<noteq> Inr ([drawn], worth_evaluator [drawn])"
  by (simp add: scripted_def drawn_def worth_evaluator_def)

text \<open>
  C2 (amended). At every state that is not reported game over, a search whose depth
  equals its limit returns exactly the evaluator's value at that state.
\<close>

theorem minimax_at_limit:
  assumes "\<not> is_game_over A board"
  shows "minimax (Suc fuel) A board d d color evaluator = Inr (board, evaluator board)"
  using assms by simp

theorem minimax_at_limit_witness:
  "\<not> is_game_over scripted [quiet True 3] \<and>
   minimax (Suc 0) scripted [quiet True 3] 2 2 True worth_evaluator = Inr ([quiet True 3], 3)"
proof -
  have g: "\<not> is_game_over scripted [quiet True 3]"
    by (simp add: scripted_def quiet_def)
  show ?thesis
    using g minimax_at_limit [OF g, where fuel = 0 and d = 2 and color = True
        and evaluator = worth_evaluator]
    by (simp add: worth_evaluator_def quiet_def)
qed

section \<open>Positions without legal moves\<close>

text \<open>
  C5. At a root without legal moves the selector returns normally, with no move and with
  the sentinel divided by its magnitude: -1 when the root side maximizes, +1 otherwise.
  The board is left as it was.
\<close>

theorem find_best_move_no_moves:
  assumes "legal_moves A board = []"
  shows "find_best_move fuel A board max_depth evaluator =
           Inr (board, None, if turn A board then - 1 else 1)"
  using assms by (simp add: find_best_move_def max_score_def)

theorem find_best_move_no_moves_witness:
  "legal_moves scripted [stuck_white] = [] \<and>
   find_best_move 0 scripted [stuck_white] 1 worth_evaluator = Inr ([stuck_white], None, - 1) \<and>
   find_best_move 0 scripted [stuck_black] 1 worth_evaluator = Inr ([stuck_black], None, 1)"
proof -
  have w: "legal_moves scripted [stuck_white] = []"
    by (simp add: scripted_def stuck_white_def)
  have b: "legal_moves scripted [stuck_black] = []"
    by (simp add: scripted_def stuck_black_def)
  have tw: "turn scripted [stuck_white]" and tb: "\<not> turn scripted [stuck_black]"
    by (simp_all add: scripted_def stuck_white_def stuck_black_def)
  show ?thesis
    using w tw tb
      find_best_move_no_moves [OF w, where fuel = 0 and max_depth = 1
        and evaluator = worth_evaluator]
      find_best_move_no_moves [OF b, where fuel = 0 and max_depth = 1
        and evaluator = worth_evaluator]
    by simp
qed

text \<open>
  C10. At a position that is not reported game over, whose budget has not fallen below
  the threshold and that has no legal move, the probability-limited search returns
  normally with the raw sentinel, -10000 for the maximizing side and +10000 otherwise:
  the quotient by the number of moves is computed in the loop body only, which does not
  run, so no division by zero is raised.
\<close>

theorem probabilistic_minimax_no_moves:
  assumes "\<not> is_game_over A board" and "\<not> proba_depth < min_proba_depth"
    and "legal_moves A board = []"
  shows "probabilistic_minimax (Suc fuel) A board proba_depth min_proba_depth color evaluator =
           Inr (board, if color then - 10000 else 10000)"
  using assms by (simp add: max_score_def)

theorem probabilistic_minimax_no_moves_witness:
  "\<not> is_game_over scripted [stuck_white] \<and> \<not> (1::real) < 1 / 8 \<and>
   legal_moves scripted [stuck_white] = [] \<and>
   probabilistic_minimax (Suc 0) scripted [stuck_white] 1 (1 / 8) True worth_evaluator =
     Inr ([stuck_white], - 10000) \<and>
   probabilistic_minimax (Suc 0) scripted [stuck_white] 1 (1 / 8) False worth_evaluator =
     Inr ([stuck_white], 10000)"
proof -
  have g: "\<not> is_game_over scripted [stuck_white]"
    and m: "legal_moves scripted [stuck_white] = []"
    by (simp_all add: scripted_def stuck_white_def)
  have p: "\<not> (1::real) < 1 / 8" by simp
  show ?thesis
    using g p m
      probabilistic_minimax_no_moves [OF g p m, where fuel = 0 and color = True
        and evaluator = worth_evaluator]
      probabilistic_minimax_no_moves [OF g p m, where fuel = 0 and color = False
        and evaluator = worth_evaluator]
    by simp
qed

text \<open>
  In no case at all does the probability-limited search raise a division by zero: the
  loop body runs only for a move, and then the number of moves is not zero.
\<close>

lemma search_loop_no_zero_division:
  assumes "ms = [] \<or> (\<forall>b. search b \<noteq> Inl ZeroDivisionError)"
  shows "search_loop A search comb ms board best \<noteq> Inl ZeroDivisionError"
  using assms by (induction ms arbitrary: board best) (auto split: sum.splits)

lemma probabilistic_minimax_no_zero_division:
  "probabilistic_minimax fuel A board p q color evaluator \<noteq> Inl ZeroDivisionError"
proof (induction fuel arbitrary: board p color)
  case 0
  then show ?case by simp
next
  case (Suc fuel)
  let ?search = "\<lambda>b. case py_div p (length (legal_moves A board)) of
                   Inl e \<Rightarrow> Inl e
                 | Inr p' \<Rightarrow> probabilistic_minimax fuel A b p' q (turn A b) evaluator"
  have "legal_moves A board = [] \<or> (\<forall>b. ?search b \<noteq> Inl ZeroDivisionError)"
    using Suc.IH by (auto simp: py_div_def)
  then have "search_loop A ?search comb (legal_moves A board) board best
               \<noteq> Inl ZeroDivisionError" for comb best
    by (rule search_loop_no_zero_division)
  then show ?case by (simp add: Let_def)
qed

section \<open>Make and unmake\<close>

text \<open>
  Each pass through a loop pushes one move, searches and pops. When a pop undoes the
  push of a legal move, the loop hands back the board it was given.
\<close>

lemma search_loop_frame:
  assumes "\<forall>m\<in>set ms. pop A (push A board m) = board"
    and "\<forall>m\<in>set ms. \<forall>b' s. search (push A board m) = Inr (b', s) \<longrightarrow> b' = push A board m"
    and "search_loop A search comb ms board best = Inr (b', s)"
  shows "b' = board"
  using assms
proof (induction ms arbitrary: best)
  case Nil
  then show ?case by simp
next
  case (Cons m ms)
  from Cons.prems(3) obtain b1 s1 where
    call: "search (push A board m) = Inr (b1, s1)" and
    rest: "search_loop A search comb ms (pop A b1) (comb best s1) = Inr (b', s)"
    by (auto split: sum.splits)
  from Cons.prems(2) call have "b1 = push A board m" by simp
  with Cons.prems(1) have restored: "pop A b1 = board" by simp
  show ?case
    using Cons.IH [of "comb best s1"] Cons.prems(1,2) rest restored by simp
qed

lemma minimax_frame:
  assumes "round_trip A"
    and "minimax fuel A board depth max_depth color evaluator = Inr (b', s)"
  shows "b' = board"
  using assms(2)
proof (induction fuel arbitrary: board depth color b' s)
  case 0
  then show ?case by simp
next
  case (Suc fuel)
  have pops: "\<forall>m\<in>set (legal_moves A board). pop A (push A board m) = board"
    using assms(1) by (simp add: round_trip_def)
  have calls: "\<forall>m\<in>set (legal_moves A board). \<forall>b1 s1.
      minimax fuel A (push A board m) (depth + 1) max_depth (turn A (push A board m)) evaluator
        = Inr (b1, s1) \<longrightarrow> b1 = push A board m"
    using Suc.IH by blast
  show ?case
  proof (cases "is_game_over A board \<or> depth = max_depth")
    case True
    with Suc.prems show ?thesis by (auto split: if_splits)
  next
    case False
    with Suc.prems obtain comb best where
      "search_loop A (\<lambda>b. minimax fuel A b (depth + 1) max_depth (turn A b) evaluator)
         comb (legal_moves A board) board best = Inr (b', s)"
      by (auto split: if_splits)
    then show ?thesis
      using search_loop_frame [OF pops, where search = "\<lambda>b. minimax fuel A b (depth + 1) max_depth (turn A b) evaluator"] calls
      by blast
  qed
qed

lemma probabilistic_minimax_frame:
  assumes "round_trip A"
    and "probabilistic_minimax fuel A board p q color evaluator = Inr (b', s)"
  shows "b' = board"
  using assms(2)
proof (induction fuel arbitrary: board p color b' s)
  case 0
  then show ?case by simp
next
  case (Suc fuel)
  let ?search = "\<lambda>b. case py_div p (length (legal_moves A board)) of
                   Inl e \<Rightarrow> Inl e
                 | Inr p' \<Rightarrow> probabilistic_minimax fuel A b p' q (turn A b) evaluator"
  have pops: "\<forall>m\<in>set (legal_moves A board). pop A (push A board m) = board"
    using assms(1) by (simp add: round_trip_def)
  have calls: "\<forall>m\<in>set (legal_moves A board). \<forall>b1 s1.
      ?search (push A board m) = Inr (b1, s1) \<longrightarrow> b1 = push A board m"
    using Suc.IH by (auto split: sum.splits)
  show ?case
  proof (cases "is_game_over A board \<or> p < q")
    case True
    with Suc.prems show ?thesis by (auto split: if_splits)
  next
    case False
    with Suc.prems obtain comb best where
      "search_loop A ?search comb (legal_moves A board) board best = Inr (b', s)"
      by (auto simp: Let_def split: if_splits)
    then show ?thesis
      using search_loop_frame [OF pops, where search = ?search] calls
      by blast
  qed
qed

lemma best_move_loop_frame:
  assumes "round_trip A"
    and "set ms \<subseteq> set (legal_moves A board)"
    and "best_move_loop fuel A max_depth evaluator ms board bm bs = Inr (b', mv, s)"
  shows "b' = board"
  using assms(2,3)
proof (induction ms arbitrary: bm bs)
  case Nil
  then show ?case by simp
next
  case (Cons m ms)
  from Cons.prems(2) obtain b1 s1 where
    call: "minimax fuel A (push A board m) 0 max_depth (turn A (push A board m)) evaluator
             = Inr (b1, s1)"
    by (auto split: sum.splits)
  then have "b1 = push A board m"
    using minimax_frame [OF assms(1)] by blast
  moreover have "pop A (push A board m) = board"
    using assms(1) Cons.prems(1) by (simp add: round_trip_def)
  ultimately have restored: "pop A b1 = board" by simp
  from Cons.prems(2) call restored obtain bm' bs' where
    "best_move_loop fuel A max_depth evaluator ms board bm' bs' = Inr (b', mv, s)"
    by (auto simp: Let_def split: if_splits)
  then show ?case
    using Cons.IH Cons.prems(1) by simp
qed

lemma find_best_move_frame:
  assumes "round_trip A"
    and "find_best_move fuel A board max_depth evaluator = Inr (b', mv, s)"
  shows "b' = board"
  using assms(2) best_move_loop_frame [OF assms(1), of "legal_moves A board" board]
  by (auto simp: find_best_move_def Let_def split: if_splits)

text \<open>
  A depth-limited search that starts at or below its limit does complete, given a
  recursion budget above the distance to the limit.
\<close>

lemma search_loop_returns:
  assumes "\<forall>b. \<exists>r. search b = Inr r"
  shows "\<exists>r. search_loop A search comb ms board best = Inr r"
proof (induction ms arbitrary: board best)
  case Nil
  then show ?case by simp
next
  case (Cons m ms)
  from assms obtain b1 s1 where "search (push A board m) = Inr (b1, s1)"
    by (metis surj_pair)
  then show ?case using Cons.IH by simp
qed

lemma minimax_returns:
  assumes "depth \<le> max_depth" and "nat (max_depth - depth) < fuel"
  shows "\<exists>r. minimax fuel A board depth max_depth color evaluator = Inr r"
  using assms
proof (induction fuel arbitrary: board depth color)
  case 0
  then show ?case by simp
next
  case (Suc fuel)
  show ?case
  proof (cases "is_game_over A board \<or> depth = max_depth")
    case True
    then show ?thesis by auto
  next
    case False
    with Suc.prems have "depth + 1 \<le> max_depth" and "nat (max_depth - (depth + 1)) < fuel"
      by auto
    then have "\<forall>b. \<exists>r. minimax fuel A b (depth + 1) max_depth (turn A b) evaluator = Inr r"
      using Suc.IH by blast
    then have loop: "\<exists>r. search_loop A
        (\<lambda>b. minimax fuel A b (depth + 1) max_depth (turn A b) evaluator)
        comb (legal_moves A board) board best = Inr r" for comb best
      by (rule search_loop_returns)
    show ?thesis
      using False loop [of max "- max_score"] loop [of min max_score]
      by (cases color) simp_all
  qed
qed

text \<open>
  C8. For every state, depth, side and evaluator, a search call that completes
  (depth-limited, probability-limited or the best-move selector) leaves the game state
  as it was before the call, provided a pop undoes the push of a legal move: the loops
  pair every push with a pop of the same move, innermost first.
\<close>

theorem search_restores_board:
  assumes "round_trip A"
  shows "(minimax fuel A board depth max_depth color evaluator = Inr (b1, s1) \<longrightarrow> b1 = board) \<and>
         (probabilistic_minimax fuel A board proba_depth min_proba_depth color evaluator
            = Inr (b2, s2) \<longrightarrow> b2 = board) \<and>
         (find_best_move fuel A board max_depth evaluator = Inr (b3, mv, s3) \<longrightarrow> b3 = board)"
proof (intro conjI impI)
  assume "minimax fuel A board depth max_depth color evaluator = Inr (b1, s1)"
  then show "b1 = board" by (rule minimax_frame [OF assms])
next
  assume "probabilistic_minimax fuel A board proba_depth min_proba_depth color evaluator
            = Inr (b2, s2)"
  then show "b2 = board" by (rule probabilistic_minimax_frame [OF assms])
next
  assume "find_best_move fuel A board max_depth evaluator = Inr (b3, mv, s3)"
  then show "b3 = board" by (rule find_best_move_frame [OF assms])
qed

theorem search_restores_board_witness:
  "round_trip scripted \<and>
   minimax (Suc (Suc (Suc 0))) scripted [start_pos] 0 2 True worth_evaluator
     = Inr ([start_pos], 3) \<and>
   probabilistic_minimax (Suc (Suc 0)) scripted [start_pos] 1 (1 / 2) True worth_evaluator
     = Inr ([start_pos], 9) \<and>
   find_best_move (Suc (Suc 0)) scripted [start_pos] 1 worth_evaluator
     = Inr ([start_pos], Some (reply 8 3), 3)"
proof -
  have m: "minimax (Suc (Suc (Suc 0))) scripted [start_pos] 0 2 True worth_evaluator
     = Inr ([start_pos], 3)"
    by (simp add: scripted_simps start_pos_def reply_def black_mated_def)
  have p: "probabilistic_minimax (Suc (Suc 0)) scripted [start_pos] 1 (1 / 2) True worth_evaluator
     = Inr ([start_pos], 9)"
    by (simp add: scripted_simps start_pos_def reply_def black_mated_def)
  have f: "find_best_move (Suc (Suc 0)) scripted [start_pos] 1 worth_evaluator
     = Inr ([start_pos], Some (reply 8 3), 3)"
    by (simp add: scripted_simps start_pos_def reply_def black_mated_def find_best_move_def)
  show ?thesis
    using round_trip_scripted m p f
      search_restores_board [OF round_trip_scripted, where board = "[start_pos]"]
    by simp
qed

section \<open>The value of an inner node\<close>

lemma search_loop_value:
  assumes "\<forall>m\<in>set ms. pop A (push A board m) = board"
    and "\<forall>m\<in>set ms. search (push A board m) = Inr (push A board m, s m)"
  shows "search_loop A search comb ms board best =
           Inr (board, fold (\<lambda>m acc. comb acc (s m)) ms best)"
  using assms by (induction ms arbitrary: best) simp_all

lemma fold_max_Max:
  fixes s :: "'m \<Rightarrow> real"
  shows "fold (\<lambda>m acc. max acc (s m)) ms best = Max (insert best (s ` set ms))"
proof (induction ms arbitrary: best)
  case Nil
  then show ?case by simp
next
  case (Cons m ms)
  have "Max (insert (max best (s m)) (s ` set ms)) = Max (insert best (insert (s m) (s ` set ms)))"
    by (cases "s ` set ms = {}") (simp_all add: max.assoc)
  with Cons show ?case by simp
qed

lemma fold_min_Min:
  fixes s :: "'m \<Rightarrow> real"
  shows "fold (\<lambda>m acc. min acc (s m)) ms best = Min (insert best (s ` set ms))"
proof (induction ms arbitrary: best)
  case Nil
  then show ?case by simp
next
  case (Cons m ms)
  have "Min (insert (min best (s m)) (s ` set ms)) = Min (insert best (insert (s m) (s ` set ms)))"
    by (cases "s ` set ms = {}") (simp_all add: min.assoc)
  with Cons show ?case by simp
qed

text \<open>
  C3. At a state that is not game over, the probability-limited search returns the
  evaluator's value at once when the budget is below the threshold. Otherwise, with
  \<open>n\<close> the number of legal moves at the node, every child is searched with the budget
  divided by \<open>n\<close>, and the scores \<open>s m\<close> of the children are combined, starting from the
  sentinel, by maximum for the maximizing side and by minimum for the other.
\<close>

theorem probabilistic_minimax_step:
  assumes "\<not> is_game_over A board"
  shows "(proba_depth < min_proba_depth \<longrightarrow>
            probabilistic_minimax (Suc fuel) A board proba_depth min_proba_depth color evaluator
              = Inr (board, evaluator board)) \<and>
         (\<not> proba_depth < min_proba_depth \<and> round_trip A \<and>
          (\<forall>m\<in>set (legal_moves A board). \<exists>b'.
             probabilistic_minimax fuel A (push A board m)
               (proba_depth / real (length (legal_moves A board))) min_proba_depth
               (turn A (push A board m)) evaluator = Inr (b', s m)) \<longrightarrow>
            probabilistic_minimax (Suc fuel) A board proba_depth min_proba_depth color evaluator
              = Inr (board,
                  if color then Max (insert (- max_score) (s ` set (legal_moves A board)))
                  else Min (insert max_score (s ` set (legal_moves A board)))))"
proof (intro conjI impI)
  assume "proba_depth < min_proba_depth"
  with assms show "probabilistic_minimax (Suc fuel) A board proba_depth min_proba_depth color evaluator
              = Inr (board, evaluator board)"
    by simp
next
  let ?n = "length (legal_moves A board)"
  let ?search = "\<lambda>b. case py_div proba_depth ?n of
                   Inl e \<Rightarrow> Inl e
                 | Inr p \<Rightarrow> probabilistic_minimax fuel A b p min_proba_depth (turn A b) evaluator"
  assume h: "\<not> proba_depth < min_proba_depth \<and> round_trip A \<and>
          (\<forall>m\<in>set (legal_moves A board). \<exists>b'.
             probabilistic_minimax fuel A (push A board m)
               (proba_depth / real ?n) min_proba_depth
               (turn A (push A board m)) evaluator = Inr (b', s m))"
  then have rt: "round_trip A" by simp
  have pops: "\<forall>m\<in>set (legal_moves A board). pop A (push A board m) = board"
    using rt by (simp add: round_trip_def)
  have calls: "\<forall>m\<in>set (legal_moves A board). ?search (push A board m) = Inr (push A board m, s m)"
  proof
    fix m assume m: "m \<in> set (legal_moves A board)"
    then have "?n \<noteq> 0" by auto
    then have d: "py_div proba_depth ?n = Inr (proba_depth / real ?n)"
      by (simp add: py_div_def)
    from h m obtain b' where
      c: "probabilistic_minimax fuel A (push A board m) (proba_depth / real ?n) min_proba_depth
            (turn A (push A board m)) evaluator = Inr (b', s m)"
      by blast
    then have "b' = push A board m"
      using probabilistic_minimax_frame [OF rt] by blast
    with c d show "?search (push A board m) = Inr (push A board m, s m)" by simp
  qed
  show "probabilistic_minimax (Suc fuel) A board proba_depth min_proba_depth color evaluator
              = Inr (board,
                  if color then Max (insert (- max_score) (s ` set (legal_moves A board)))
                  else Min (insert max_score (s ` set (legal_moves A board))))"
    using assms h search_loop_value [OF pops calls]
    by (simp add: fold_max_Max fold_min_Min)
qed

theorem probabilistic_minimax_step_witness:
  "\<not> is_game_over scripted [start_pos] \<and>
   probabilistic_minimax (Suc 0) scripted [start_pos] (1 / 4) (1 / 2) True worth_evaluator
     = Inr ([start_pos], 0) \<and>
   probabilistic_minimax (Suc (Suc 0)) scripted [start_pos] 1 (1 / 2) True worth_evaluator
     = Inr ([start_pos], 9)"
proof -
  have g: "\<not> is_game_over scripted [start_pos]"
    by (simp add: scripted_simps start_pos_def reply_def black_mated_def)
  have calls: "\<forall>m\<in>set (legal_moves scripted [start_pos]). \<exists>b'.
      probabilistic_minimax (Suc 0) scripted (push scripted [start_pos] m)
        (1 / real (length (legal_moves scripted [start_pos]))) (1 / 2)
        (turn scripted (push scripted [start_pos] m)) worth_evaluator = Inr (b', budget_score m)"
    by (simp add: scripted_simps start_pos_def reply_def black_mated_def budget_score_def)
  have lt: "(1 / 4 :: real) < 1 / 2" and ge: "\<not> (1 :: real) < 1 / 2" by simp_all
  show ?thesis
    using g lt ge round_trip_scripted calls
      probabilistic_minimax_step [OF g, where fuel = 0 and proba_depth = "1 / 4"
        and min_proba_depth = "1 / 2" and color = True and evaluator = worth_evaluator]
      probabilistic_minimax_step [OF g, where fuel = "Suc 0" and proba_depth = 1
        and min_proba_depth = "1 / 2" and color = True and evaluator = worth_evaluator
        and s = budget_score]
    by (simp add: scripted_simps start_pos_def reply_def black_mated_def budget_score_def)
qed

section \<open>The tie-break of the selector\<close>

text \<open>
  The selector's update, as a fold over the moves: the pair changes only when a score is
  strictly better, so it ends at the first move that has the best score.
\<close>

lemma find_append:
  "find P (xs @ ys) = (case find P xs of None \<Rightarrow> find P ys | Some x \<Rightarrow> Some x)"
  by (induction xs) simp_all

lemma fold_first_max:
  fixes s :: "'m \<Rightarrow> real"
  shows "fold (\<lambda>m (bm, bs). if bs < s m then (Some m, s m) else (bm, bs)) ms (bm, bs) =
     (if \<exists>m\<in>set ms. bs < s m
      then (find (\<lambda>m. s m = Max (s ` set ms)) ms, Max (s ` set ms))
      else (bm, bs))"
proof (induction ms rule: rev_induct)
  case Nil
  then show ?case by simp
next
  case (snoc x xs)
  show ?case
  proof (cases "\<exists>m\<in>set xs. bs < s m")
    case True
    then have ne: "set xs \<noteq> {}" by auto
    let ?M = "Max (s ` set xs)"
    have Mge: "\<forall>m\<in>set xs. s m \<le> ?M" by simp
    have Min: "?M \<in> s ` set xs" using ne by (intro Max_in) auto
    have bsM: "bs < ?M" using True Mge by (meson less_le_trans)
    have fnd: "find (\<lambda>m. s m = ?M) xs \<noteq> None"
      using Min by (auto simp: find_None_iff)
    show ?thesis
    proof (cases "?M < s x")
      case True
      have Mx: "Max (s ` set (xs @ [x])) = s x"
        using True Mge ne by (auto intro!: Max_eqI dest: bspec)
      have "s m \<noteq> s x" if "m \<in> set xs" for m
      proof -
        from that have "s m \<le> ?M" by simp
        with True show ?thesis by simp
      qed
      then have "find (\<lambda>m. s m = s x) xs = None"
        by (simp add: find_None_iff)
      then show ?thesis
        using snoc \<open>\<exists>m\<in>set xs. bs < s m\<close> True Mx bsM
        by (auto simp: find_append)
    next
      case False
      have le: "s x \<le> ?M" using False by (simp only: not_less)
      have "Max (s ` set (xs @ [x])) = Max (insert (s x) (s ` set xs))" by simp
      also have "\<dots> = max (s x) ?M" using ne by (intro Max_insert) auto
      also have "\<dots> = ?M" using le by (rule max_absorb2)
      finally have Mx: "Max (s ` set (xs @ [x])) = ?M" .
      show ?thesis
        using snoc \<open>\<exists>m\<in>set xs. bs < s m\<close> False Mx fnd
        by (auto simp: find_append split: option.splits)
    qed
  next
    case False
    then have le: "\<forall>m\<in>set xs. s m \<le> bs" by auto
    show ?thesis
    proof (cases "bs < s x")
      case True
      have Mx: "Max (s ` set (xs @ [x])) = s x"
        using True le by (auto intro!: Max_eqI)
      have "find (\<lambda>m. s m = s x) xs = None"
        using True le by (auto simp: find_None_iff)
      then show ?thesis
        using snoc False True Mx by (auto simp: find_append)
    next
      case False
      then show ?thesis
        using snoc \<open>\<not> (\<exists>m\<in>set xs. bs < s m)\<close> by auto
    qed
  qed
qed

lemma fold_first_min:
  fixes s :: "'m \<Rightarrow> real"
  shows "fold (\<lambda>m (bm, bs). if s m < bs then (Some m, s m) else (bm, bs)) ms (bm, bs) =
     (if \<exists>m\<in>set ms. s m < bs
      then (find (\<lambda>m. s m = Min (s ` set ms)) ms, Min (s ` set ms))
      else (bm, bs))"
proof (induction ms rule: rev_induct)
  case Nil
  then show ?case by simp
next
  case (snoc x xs)
  show ?case
  proof (cases "\<exists>m\<in>set xs. s m < bs")
    case True
    then have ne: "set xs \<noteq> {}" by auto
    let ?M = "Min (s ` set xs)"
    have Mle: "\<forall>m\<in>set xs. ?M \<le> s m" by simp
    have Min: "?M \<in> s ` set xs" using ne by (intro Min_in) auto
    have bsM: "?M < bs" using True Mle by (meson le_less_trans)
    have fnd: "find (\<lambda>m. s m = ?M) xs \<noteq> None"
      using Min by (auto simp: find_None_iff)
    show ?thesis
    proof (cases "s x < ?M")
      case True
      have Mx: "Min (s ` set (xs @ [x])) = s x"
        using True Mle ne by (auto intro!: Min_eqI dest: bspec)
      have "s m \<noteq> s x" if "m \<in> set xs" for m
      proof -
        from that have "?M \<le> s m" by simp
        with True show ?thesis by simp
      qed
      then have "find (\<lambda>m. s m = s x) xs = None"
        by (simp add: find_None_iff)
      then show ?thesis
        using snoc \<open>\<exists>m\<in>set xs. s m < bs\<close> True Mx bsM
        by (auto simp: find_append)
    next
      case False
      have le: "?M \<le> s x" using False by (simp only: not_less)
      have "Min (s ` set (xs @ [x])) = Min (insert (s x) (s ` set xs))" by simp
      also have "\<dots> = min (s x) ?M" using ne by (intro Min_insert) auto
      also have "\<dots> = ?M" using le by (rule min_absorb2)
      finally have Mx: "Min (s ` set (xs @ [x])) = ?M" .
      show ?thesis
        using snoc \<open>\<exists>m\<in>set xs. s m < bs\<close> False Mx fnd
        by (auto simp: find_append split: option.splits)
    qed
  next
    case False
    then have le: "\<forall>m\<in>set xs. bs \<le> s m" by auto
    show ?thesis
    proof (cases "s x < bs")
      case True
      have Mx: "Min (s ` set (xs @ [x])) = s x"
        using True le by (auto intro!: Min_eqI)
      have "s m \<noteq> s x" if "m \<in> set xs" for m
        using that le True by auto
      then have "find (\<lambda>m. s m = s x) xs = None"
        by (simp add: find_None_iff)
      then show ?thesis
        using snoc False True Mx by (auto simp: find_append)
    next
      case False
      then show ?thesis
        using snoc \<open>\<not> (\<exists>m\<in>set xs. s m < bs)\<close> by auto
    qed
  qed
qed

lemma best_move_loop_value:
  assumes rt: "round_trip A"
    and sub: "set ms \<subseteq> set (legal_moves A board)"
    and calls: "\<forall>m\<in>set ms. \<exists>b'. minimax fuel A (push A board m) 0 max_depth
                  (turn A (push A board m)) evaluator = Inr (b', s m)"
  shows "best_move_loop fuel A max_depth evaluator ms board bm bs =
     Inr (board,
       if turn A board
       then fold (\<lambda>m (bm, bs). if bs < s m then (Some m, s m) else (bm, bs)) ms (bm, bs)
       else fold (\<lambda>m (bm, bs). if s m < bs then (Some m, s m) else (bm, bs)) ms (bm, bs))"
  using sub calls
proof (induction ms arbitrary: bm bs)
  case Nil
  then show ?case by simp
next
  case (Cons m ms)
  from Cons.prems(2) obtain b1 where
    call: "minimax fuel A (push A board m) 0 max_depth (turn A (push A board m)) evaluator
             = Inr (b1, s m)"
    by auto
  then have "b1 = push A board m"
    using minimax_frame [OF rt] by blast
  moreover have "pop A (push A board m) = board"
    using rt Cons.prems(1) by (simp add: round_trip_def)
  ultimately have restored: "pop A b1 = board" by simp
  have sub': "set ms \<subseteq> set (legal_moves A board)"
    using Cons.prems(1) by simp
  have calls': "\<forall>m\<in>set ms. \<exists>b'. minimax fuel A (push A board m) 0 max_depth
                  (turn A (push A board m)) evaluator = Inr (b', s m)"
    using Cons.prems(2) by simp
  show ?case
    using call restored Cons.IH [OF sub' calls'] by (simp add: Let_def)
qed

text \<open>
  C4 (as stated). At a root with a legal move, the move returned is the first among the
  moves whose score equals the best score. It fails when no score is strictly better
  than the sentinel: the only move of \<open>sunk\<close> scores -10000, which is the best score
  returned, and no move is returned.
\<close>

theorem find_best_move_first_best_counterexample:
  "legal_moves scripted [sunk] = [sunk_reply] \<and>
   minimax (Suc 0) scripted [sunk_reply, sunk] 0 0 False worth_evaluator
     = Inr ([sunk_reply, sunk], - 10000) \<and>
   find_best_move (Suc 0) scripted [sunk] 0 worth_evaluator = Inr ([sunk], None, - 10000)"
  by (simp add: scripted_simps sunk_def sunk_reply_def find_best_move_def)

text \<open>
  C4 (amended). At a root with a legal move, the pair of best move and best score is
  updated only on strict improvement. When some move's score is strictly better than the
  sentinel (above -10000 for the maximizing side, below +10000 for the other), the score
  returned is the best of the scores and the move returned is the first one, in
  enumeration order, that has it; when none is, no move is returned, with the sentinel.
\<close>

theorem find_best_move_first_best:
  assumes "round_trip A" and "legal_moves A board \<noteq> []"
    and "\<forall>m\<in>set (legal_moves A board). \<exists>b'. minimax fuel A (push A board m) 0 max_depth
           (turn A (push A board m)) evaluator = Inr (b', s m)"
  shows "find_best_move fuel A board max_depth evaluator =
     Inr (board,
       if turn A board then
         (if \<exists>m\<in>set (legal_moves A board). - max_score < s m
          then (find (\<lambda>m. s m = Max (s ` set (legal_moves A board))) (legal_moves A board),
                Max (s ` set (legal_moves A board)))
          else (None, - max_score))
       else
         (if \<exists>m\<in>set (legal_moves A board). s m < max_score
          then (find (\<lambda>m. s m = Min (s ` set (legal_moves A board))) (legal_moves A board),
                Min (s ` set (legal_moves A board)))
          else (None, max_score)))"
  using assms(2)
    best_move_loop_value [OF assms(1) subset_refl assms(3), of None "- max_score"]
    best_move_loop_value [OF assms(1) subset_refl assms(3), of None max_score]
  by (simp add: find_best_move_def fold_first_max fold_first_min)

theorem find_best_move_first_best_witness:
  "round_trip scripted \<and> legal_moves scripted [start_pos] \<noteq> [] \<and>
   find_best_move (Suc (Suc 0)) scripted [start_pos] 1 worth_evaluator
     = Inr ([start_pos], Some (reply 8 3), 3)"
proof -
  have ne: "legal_moves scripted [start_pos] \<noteq> []"
    by (simp add: scripted_simps start_pos_def reply_def black_mated_def)
  have calls: "\<forall>m\<in>set (legal_moves scripted [start_pos]). \<exists>b'.
      minimax (Suc (Suc 0)) scripted (push scripted [start_pos] m) 0 1
        (turn scripted (push scripted [start_pos] m)) worth_evaluator = Inr (b', reply_score m)"
    by (simp add: scripted_simps start_pos_def reply_def black_mated_def reply_score_def)
  have t: "turn scripted [start_pos]" by (simp add: scripted_simps start_pos_def reply_def black_mated_def)
  show ?thesis
    using round_trip_scripted ne t
      find_best_move_first_best [OF round_trip_scripted ne calls]
    by (simp add: scripted_simps start_pos_def reply_def black_mated_def reply_score_def)
qed

section \<open>The sentinel\<close>

lemma search_loop_max_in_range:
  assumes "\<forall>m\<in>set ms. pop A (push A board m) = board \<and>
             (\<exists>s. search (push A board m) = Inr (push A board m, s) \<and> lo < s \<and> s < hi)"
    and "lo \<le> best" and "best < hi"
  shows "\<exists>s. search_loop A search max ms board best = Inr (board, s) \<and>
             best \<le> s \<and> s < hi \<and> (ms \<noteq> [] \<longrightarrow> lo < s)"
  using assms
proof (induction ms arbitrary: best)
  case Nil
  then show ?case by simp
next
  case (Cons m ms)
  from Cons.prems(1) obtain s1 where
    call: "search (push A board m) = Inr (push A board m, s1)" and
    range: "lo < s1" "s1 < hi" and restored: "pop A (push A board m) = board"
    by auto
  have "\<exists>s. search_loop A search max ms board (max best s1) = Inr (board, s) \<and>
             max best s1 \<le> s \<and> s < hi \<and> (ms \<noteq> [] \<longrightarrow> lo < s)"
    using Cons.IH [of "max best s1"] Cons.prems range by simp
  then show ?case
    using call restored range by auto
qed

lemma search_loop_min_in_range:
  assumes "\<forall>m\<in>set ms. pop A (push A board m) = board \<and>
             (\<exists>s. search (push A board m) = Inr (push A board m, s) \<and> lo < s \<and> s < hi)"
    and "lo < best" and "best \<le> hi"
  shows "\<exists>s. search_loop A search min ms board best = Inr (board, s) \<and>
             s \<le> best \<and> lo < s \<and> (ms \<noteq> [] \<longrightarrow> s < hi)"
  using assms
proof (induction ms arbitrary: best)
  case Nil
  then show ?case by simp
next
  case (Cons m ms)
  from Cons.prems(1) obtain s1 where
    call: "search (push A board m) = Inr (push A board m, s1)" and
    range: "lo < s1" "s1 < hi" and restored: "pop A (push A board m) = board"
    by auto
  have "\<exists>s. search_loop A search min ms board (min best s1) = Inr (board, s) \<and>
             s \<le> min best s1 \<and> lo < s \<and> (ms \<noteq> [] \<longrightarrow> s < hi)"
    using Cons.IH [of "min best s1"] Cons.prems range by simp
  then show ?case
    using call restored range by auto
qed

lemma mate_scores_in_range:
  assumes "- 99990000 < depth" and "depth < 99990000"
  shows "- max_score < - (max_score + real_of_int depth) / max_score"
    and "- (max_score + real_of_int depth) / max_score < max_score"
    and "- max_score < (max_score - real_of_int depth) / max_score"
    and "(max_score - real_of_int depth) / max_score < max_score"
proof -
  have "- 99990000 < real_of_int depth" and "real_of_int depth < 99990000"
    using assms by linarith+
  then show "- max_score < - (max_score + real_of_int depth) / max_score"
    and "- (max_score + real_of_int depth) / max_score < max_score"
    and "- max_score < (max_score - real_of_int depth) / max_score"
    and "(max_score - real_of_int depth) / max_score < max_score"
    by (simp_all add: max_score_def pos_less_divide_eq pos_divide_less_eq)
qed

lemma minimax_in_range:
  assumes ev: "\<forall>b. - max_score < evaluator b \<and> evaluator b < max_score"
    and "- 99990000 < depth" and "depth \<le> max_depth" and "max_depth < 99990000"
    and "subtree_ok (nat (max_depth - depth)) A board"
    and "nat (max_depth - depth) < fuel"
  shows "\<exists>s. minimax fuel A board depth max_depth color evaluator = Inr (board, s) \<and>
             - max_score < s \<and> s < max_score"
  using assms(2-)
proof (induction fuel arbitrary: board depth color)
  case 0
  then show ?case by simp
next
  case (Suc fuel)
  show ?case
  proof (cases "is_game_over A board")
    case True
    have "depth < 99990000" using Suc.prems(2,3) by simp
    with True mate_scores_in_range [OF Suc.prems(1)] show ?thesis
      by simp
  next
    case over: False
    show ?thesis
    proof (cases "depth = max_depth")
      case True
      with over ev show ?thesis by simp
    next
      case False
      with Suc.prems have lt: "depth + 1 \<le> max_depth" by simp
      define k where "k = nat (max_depth - (depth + 1))"
      have k: "nat (max_depth - depth) = Suc k"
        using lt by (simp add: k_def)
      have fuel: "k < fuel"
        using Suc.prems(5) k by simp
      have "subtree_ok (Suc k) A board"
        using Suc.prems(4) k by simp
      with over have ne: "legal_moves A board \<noteq> []"
        and kids: "\<forall>m\<in>set (legal_moves A board).
                     pop A (push A board m) = board \<and> subtree_ok k A (push A board m)"
        by (auto simp: list_all_iff)
      let ?search = "\<lambda>b. minimax fuel A b (depth + 1) max_depth (turn A b) evaluator"
      have calls: "\<forall>m\<in>set (legal_moves A board). pop A (push A board m) = board \<and>
             (\<exists>s. ?search (push A board m) = Inr (push A board m, s) \<and>
                  - max_score < s \<and> s < max_score)"
      proof
        fix m assume m: "m \<in> set (legal_moves A board)"
        have "\<exists>s. minimax fuel A (push A board m) (depth + 1) max_depth
                     (turn A (push A board m)) evaluator = Inr (push A board m, s) \<and>
                   - max_score < s \<and> s < max_score"
        proof (rule Suc.IH)
          show "- 99990000 < depth + 1" using Suc.prems(1) by simp
          show "depth + 1 \<le> max_depth" by (rule lt)
          show "max_depth < 99990000" by (rule Suc.prems(3))
          show "subtree_ok (nat (max_depth - (depth + 1))) A (push A board m)"
            using kids m by (simp add: k_def)
          show "nat (max_depth - (depth + 1)) < fuel"
            using fuel by (simp add: k_def)
        qed
        with kids m show "pop A (push A board m) = board \<and>
             (\<exists>s. ?search (push A board m) = Inr (push A board m, s) \<and>
                  - max_score < s \<and> s < max_score)" by simp
      qed
      show ?thesis
      proof (cases color)
        case True
        have "\<exists>s. search_loop A ?search max (legal_moves A board) board (- max_score)
                     = Inr (board, s) \<and> - max_score \<le> s \<and> s < max_score \<and>
                   (legal_moves A board \<noteq> [] \<longrightarrow> - max_score < s)"
          by (rule search_loop_max_in_range [OF calls]) (simp_all add: max_score_def)
        with over False True ne show ?thesis by auto
      next
        case black: False
        have "\<exists>s. search_loop A ?search min (legal_moves A board) board max_score
                     = Inr (board, s) \<and> s \<le> max_score \<and> - max_score < s \<and>
                   (legal_moves A board \<noteq> [] \<longrightarrow> s < max_score)"
          by (rule search_loop_min_in_range [OF calls]) (simp_all add: max_score_def)
        with over False black ne show ?thesis by auto
      qed
    qed
  qed
qed

lemma bounded_evaluator_range:
  "- 10000 < bounded_evaluator b \<and> bounded_evaluator b < 10000"
  by (cases b) (auto simp: bounded_evaluator_def max_def min_def)

text \<open>
  C7 (as stated). At a non-terminal state below the depth limit that has a legal move,
  the search never returns -10000 or +10000. It fails for an evaluator that rates a
  position at or below the sentinel: the only move of \<open>drowned\<close> leads to a position
  rated -20000, and the search returns the sentinel -10000.
\<close>

theorem minimax_keeps_within_sentinels_counterexample:
  "\<not> is_game_over scripted [drowned] \<and> legal_moves scripted [drowned] \<noteq> [] \<and>
   subtree_ok (Suc 0) scripted [drowned] \<and>
   minimax (Suc (Suc 0)) scripted [drowned] 0 1 True worth_evaluator = Inr ([drowned], - 10000)"
  by (simp add: scripted_simps drowned_def)

text \<open>
  C7 (amended). Let the evaluator's values lie strictly between -10000 and +10000 and
  let \<open>0 \<le> depth < max_depth < 99990000\<close>. At a state that is not game over, whose
  positions down to the depth limit each have a legal move unless they are game over,
  and at which a pop undoes a push, the search returns a score strictly between -10000
  and +10000: the sentinel does not reach the result.
\<close>

theorem minimax_keeps_within_sentinels:
  assumes "\<not> is_game_over A board"
    and "0 \<le> depth" and "depth < max_depth" and "max_depth < 99990000"
    and "subtree_ok (nat (max_depth - depth)) A board"
    and "\<forall>b. - 10000 < evaluator b \<and> evaluator b < 10000"
    and "nat (max_depth - depth) < fuel"
  shows "\<exists>s. minimax fuel A board depth max_depth color evaluator = Inr (board, s) \<and>
             - 10000 < s \<and> s < 10000"
  using minimax_in_range [of evaluator depth max_depth A board fuel color] assms
  by (simp add: max_score_def)

theorem minimax_keeps_within_sentinels_witness:
  "\<not> is_game_over scripted [start_pos] \<and> subtree_ok (Suc (Suc 0)) scripted [start_pos] \<and>
   minimax (Suc (Suc (Suc 0))) scripted [start_pos] 0 2 True bounded_evaluator
     = Inr ([start_pos], 9999 / 10000)"
proof -
  have g: "\<not> is_game_over scripted [start_pos]"
    by (simp add: scripted_simps start_pos_def reply_def black_mated_def)
  have ok: "subtree_ok (nat (2 - 0)) scripted [start_pos]"
    by (simp add: scripted_simps start_pos_def reply_def black_mated_def numeral_2_eq_2)
  have ev: "\<forall>b. - 10000 < bounded_evaluator b \<and> bounded_evaluator b < 10000"
    using bounded_evaluator_range by blast
  have r: "minimax (Suc (Suc (Suc 0))) scripted [start_pos] 0 2 True bounded_evaluator
     = Inr ([start_pos], 9999 / 10000)"
    by (simp add: scripted_simps start_pos_def reply_def black_mated_def bounded_evaluator_def)
  show ?thesis
    using g ok r
      minimax_keeps_within_sentinels [OF g _ _ _ ok ev, where fuel = "Suc (Suc (Suc 0))"
        and color = True]
    by (simp add: numeral_2_eq_2)
qed

text \<open>
  The bound on the depth is needed: a mate score is the sentinel itself at a depth of
  the order of the square of 10000.
\<close>

lemma minimax_mate_score_reaches_sentinel:
  "minimax (Suc (Suc 0)) scripted [mate_in_one] 100009999 100010001 True bounded_evaluator
     = Inr ([mate_in_one], - 10000)"
  by (simp add: scripted_simps mate_in_one_def black_mated_def)

section \<open>The self-play driver\<close>

text \<open>
  C6 (as stated). When the selector returns no move, the driver applies no move and goes
  on to classify the outcome. It fails: the driver hands whatever the selector returned
  to \<^verbatim>\<open>push\<close>. At \<open>starved\<close> the game is not over and there is a legal move, as at
  every position below it until the game is over; the move's score is -10000, which is
  no strict improvement on the sentinel, so the selector returns no move, and the game
  ends with the error of \<^verbatim>\<open>push\<close> instead of a classification.
\<close>

theorem driver_pushes_selected_move_counterexample:
  "\<not> is_game_over scripted [starved] \<and> legal_moves scripted [starved] = [starved_reply] \<and>
   subtree_ok (Suc (Suc (Suc (Suc 0)))) scripted [starved] \<and>
   find_best_move (Suc (Suc 0)) scripted [starved] 1 worth_evaluator
     = Inr ([starved], None, - 10000) \<and>
   play_game (Suc 0) (Suc (Suc 0)) scripted worth_evaluator worth_evaluator [starved]
     = Some (Inl AttributeError)"
  by (simp add: scripted_simps starved_def starved_reply_def starved_leaf_def
      find_best_move_def driver_turn_def board_push_def)

text \<open>
  C6 (amended). The driver calls the selector only at a position that is not reported
  game over, and hands what the selector returns to \<^verbatim>\<open>push\<close> without testing it.
  When the selector returns a move, that move is applied to the state the selector left
  and the loop goes on from there. When it returns no move, \<^verbatim>\<open>push\<close> is called with
  none all the same: an error it raises ends the run without a classification, and
  otherwise the loop goes on from the state it leaves. An error of the selector ends the
  run. A position reported game over is never given to the selector, no move is applied
  to it, and the driver goes straight to the classification of the outcome.
\<close>

theorem driver_pushes_selected_move:
  "(is_game_over A board \<longrightarrow>
      play_game steps fuel A white_evaluator black_evaluator board = Some (Inr board)) \<and>
   (\<not> is_game_over A board \<and>
    find_best_move fuel A board 1 (if turn A board then white_evaluator else black_evaluator)
      = Inr (board', Some m, score) \<longrightarrow>
      play_game (Suc steps) fuel A white_evaluator black_evaluator board =
        play_game steps fuel A white_evaluator black_evaluator (push A board' m)) \<and>
   (\<not> is_game_over A board \<and>
    find_best_move fuel A board 1 (if turn A board then white_evaluator else black_evaluator)
      = Inr (board', None, score) \<longrightarrow>
      play_game (Suc steps) fuel A white_evaluator black_evaluator board =
        (case push_none A board' of
           Inl e \<Rightarrow> Some (Inl e)
         | Inr b \<Rightarrow> play_game steps fuel A white_evaluator black_evaluator b)) \<and>
   (\<not> is_game_over A board \<and>
    find_best_move fuel A board 1 (if turn A board then white_evaluator else black_evaluator)
      = Inl e \<longrightarrow>
      play_game (Suc steps) fuel A white_evaluator black_evaluator board = Some (Inl e))"
  by (cases steps) (auto simp: driver_turn_def board_push_def)

theorem driver_pushes_selected_move_witness:
  "\<not> is_game_over scripted [mate_in_one] \<and>
   find_best_move (Suc 0) scripted [mate_in_one] 1 worth_evaluator
     = Inr ([mate_in_one], Some black_mated, 1) \<and>
   is_game_over scripted [black_mated, mate_in_one] \<and>
   play_game (Suc 0) (Suc 0) scripted worth_evaluator worth_evaluator [mate_in_one]
     = Some (Inr [black_mated, mate_in_one]) \<and>
   \<not> is_game_over scripted [starved] \<and>
   find_best_move (Suc (Suc 0)) scripted [starved] 1 worth_evaluator
     = Inr ([starved], None, - 10000) \<and>
   push_none scripted [starved] = Inl AttributeError \<and>
   play_game (Suc 0) (Suc (Suc 0)) scripted worth_evaluator worth_evaluator [starved]
     = Some (Inl AttributeError) \<and>
   find_best_move 0 scripted [starved] 1 worth_evaluator = Inl RecursionError \<and>
   play_game (Suc 0) 0 scripted worth_evaluator worth_evaluator [starved]
     = Some (Inl RecursionError)"
proof -
  have g: "\<not> is_game_over scripted [mate_in_one]"
    and o: "is_game_over scripted [black_mated, mate_in_one]"
    by (simp_all add: scripted_simps mate_in_one_def black_mated_def)
  have f: "find_best_move (Suc 0) scripted [mate_in_one] 1 worth_evaluator
     = Inr ([mate_in_one], Some black_mated, 1)"
    by (simp add: scripted_simps mate_in_one_def black_mated_def find_best_move_def)
  have g': "\<not> is_game_over scripted [starved]"
    and n: "push_none scripted [starved] = Inl AttributeError"
    by (simp_all add: scripted_simps starved_def)
  have f': "find_best_move (Suc (Suc 0)) scripted [starved] 1 worth_evaluator
     = Inr ([starved], None, - 10000)"
    by (simp add: scripted_simps starved_def starved_reply_def starved_leaf_def
        find_best_move_def)
  have r: "find_best_move 0 scripted [starved] 1 worth_evaluator = Inl RecursionError"
    by (simp add: scripted_simps starved_def starved_reply_def starved_leaf_def
        find_best_move_def)
  have t: "turn scripted [mate_in_one]" and t': "turn scripted [starved]"
    by (simp_all add: scripted_simps mate_in_one_def starved_def)
  show ?thesis
    using g o f g' n f' r t t'
      driver_pushes_selected_move [where A = scripted and board = "[mate_in_one]"
        and steps = 0 and fuel = "Suc 0" and white_evaluator = worth_evaluator
        and black_evaluator = worth_evaluator and board' = "[mate_in_one]"
        and m = black_mated and score = 1]
      driver_pushes_selected_move [where A = scripted and board = "[black_mated, mate_in_one]"
        and steps = 0 and fuel = "Suc 0" and white_evaluator = worth_evaluator
        and black_evaluator = worth_evaluator]
      driver_pushes_selected_move [where A = scripted and board = "[starved]"
        and steps = 0 and fuel = "Suc (Suc 0)" and white_evaluator = worth_evaluator
        and black_evaluator = worth_evaluator and board' = "[starved]"
        and score = "- 10000"]
      driver_pushes_selected_move [where A = scripted and board = "[starved]"
        and steps = 0 and fuel = 0 and white_evaluator = worth_evaluator
        and black_evaluator = worth_evaluator and e = RecursionError]
    by (simp add: scripted_simps mate_in_one_def black_mated_def)
qed

text \<open>After the mate of the scripted game, the tally credits White and the board is reset.\<close>

lemma classify_after_mate:
  "classify scripted [black_mated, mate_in_one] \<lparr>White = 0, Black = 0\<rparr> =
     ([mate_in_one], \<lparr>White = 1, Black = 0\<rparr>)"
  by (simp add: classify_def scripted_simps mate_in_one_def black_mated_def)

end
